theory Spec2Isabelle
  imports Main "HOL-Library.Sublist"
begin

section \<open>Text and character classes\<close>

text \<open>
  A Python \<open>str\<close> is a sequence of Unicode code points. A code point is a natural
  number, a text is a list of them, and \<open>str\<close> turns a literal of the source into
  the code points of its characters.
\<close>

type_synonym utext = "nat list"

definition str :: "string \<Rightarrow> utext" where
  "str s = map of_char s"

text \<open>
  \<open>\s\<close> of a \<open>str\<close> pattern: the code points for which \<open>str.isspace\<close> holds.
\<close>

definition is_space :: "nat \<Rightarrow> bool" where
  "is_space c =
     ((9 \<le> c \<and> c \<le> 13) \<or> (28 \<le> c \<and> c \<le> 32) \<or> c = 133 \<or> c = 160 \<or> c = 5760 \<or>
      (8192 \<le> c \<and> c \<le> 8202) \<or> c = 8232 \<or> c = 8233 \<or> c = 8239 \<or> c = 8287 \<or>
      c = 12288)"

text \<open>
  \<open>\w\<close> of a \<open>str\<close> pattern: the underscore and the alphanumeric code points. On
  ASCII these are the letters and digits; beyond ASCII they are given by the Unicode
  database of the interpreter, which is the parameter \<open>uw\<close> of the model.
\<close>

definition is_word :: "(nat \<Rightarrow> bool) \<Rightarrow> nat \<Rightarrow> bool" where
  "is_word uw c =
     (if c < 128
      then (48 \<le> c \<and> c \<le> 57) \<or> (65 \<le> c \<and> c \<le> 90) \<or> c = 95 \<or> (97 \<le> c \<and> c \<le> 122)
      else uw c)"

text \<open>A database with no alphanumeric code point beyond ASCII, for evaluating ASCII texts.\<close>

definition ascii_db :: "nat \<Rightarrow> bool" where
  "ascii_db c = False"

section \<open>The regular expressions of the script\<close>

text \<open>
  The three patterns of the script are sequences of items: one character of a class, a
  greedy \<open>+\<close> or \<open>*\<close> of a class, a literal, or an alternative of literals.
\<close>

datatype cclass = Word | Space | NotRBrace | Quote | Chr nat

datatype item = One cclass | Plus cclass | Star cclass | Lit utext | Alt "utext list"

fun cls :: "(nat \<Rightarrow> bool) \<Rightarrow> cclass \<Rightarrow> nat \<Rightarrow> bool" where
  "cls uw Word c = is_word uw c"
| "cls uw Space c = is_space c"
| "cls uw NotRBrace c = (c \<noteq> 125)"
| "cls uw Quote c = (c = 39 \<or> c = 34)"
| "cls uw (Chr k) c = (c = k)"

text \<open>
  A greedy repetition takes the longest run first and gives characters back one at a
  time, down to \<open>lo\<close>, until the rest of the pattern (the continuation \<open>k\<close>) matches.
\<close>

primrec greedy :: "(utext \<Rightarrow> utext list option) \<Rightarrow> utext \<Rightarrow> nat \<Rightarrow> nat \<Rightarrow> utext list option" where
  "greedy k s lo 0 = (if 0 < lo then None else map_option (Cons []) (k s))"
| "greedy k s lo (Suc n) =
     (if Suc n < lo then None
      else case k (drop (Suc n) s) of
             Some segs \<Rightarrow> Some (take (Suc n) s # segs)
           | None \<Rightarrow> greedy k s lo n)"

text \<open>Alternatives are tried from left to right.\<close>

primrec try_alts :: "(utext \<Rightarrow> utext list option) \<Rightarrow> utext list \<Rightarrow> utext \<Rightarrow> utext list option" where
  "try_alts k [] s = None"
| "try_alts k (w # ws) s =
     (if prefix w s
      then case k (drop (length w) s) of
             Some segs \<Rightarrow> Some (w # segs)
           | None \<Rightarrow> try_alts k ws s
      else try_alts k ws s)"

text \<open>
  \<open>rmatch uw p s\<close> matches the pattern at the start of \<open>s\<close>, as the backtracking
  matcher of \<open>re\<close> does, and returns what each item consumed.
\<close>

primrec rmatch :: "item list \<Rightarrow> (nat \<Rightarrow> bool) \<Rightarrow> utext \<Rightarrow> utext list option" where
  "rmatch [] uw s = Some []"
| "rmatch (i # r) uw s =
     (case i of
        One c \<Rightarrow>
          (case s of
             [] \<Rightarrow> None
           | x # xs \<Rightarrow> if cls uw c x then map_option (Cons [x]) (rmatch r uw xs) else None)
      | Plus c \<Rightarrow> greedy (rmatch r uw) s 1 (length (takeWhile (cls uw c) s))
      | Star c \<Rightarrow> greedy (rmatch r uw) s 0 (length (takeWhile (cls uw c) s))
      | Lit w \<Rightarrow> try_alts (rmatch r uw) [w] s
      | Alt ws \<Rightarrow> try_alts (rmatch r uw) ws s)"

text \<open>
  \<open>re.sub\<close> with a function as replacement: scan from the left; where the pattern
  matches, emit the replacement and go on after the match; elsewhere copy one character.
  (An empty match is replaced and the scan moves one character on; no pattern of the
  script matches the empty text.)
\<close>

function re_sub :: "(nat \<Rightarrow> bool) \<Rightarrow> item list \<Rightarrow> (utext list \<Rightarrow> utext) \<Rightarrow> utext \<Rightarrow> utext" where
  "re_sub uw p f [] = (case rmatch p uw [] of Some segs \<Rightarrow> f segs | None \<Rightarrow> [])"
| "re_sub uw p f (x # xs) =
     (case rmatch p uw (x # xs) of
        Some segs \<Rightarrow>
          (if concat segs = [] then f segs @ x # re_sub uw p f xs
           else f segs @ re_sub uw p f (drop (length (concat segs) - 1) xs))
      | None \<Rightarrow> x # re_sub uw p f xs)"
  by pat_completeness auto
termination
  by (relation "measure (\<lambda>(uw, p, f, s). length s)") auto

text \<open>The \<open>in\<close> operator on strings: \<open>sub in s\<close>.\<close>

primrec contains :: "utext \<Rightarrow> utext \<Rightarrow> bool" where
  "contains sub [] = (sub = [])"
| "contains sub (x # xs) = (prefix sub (x # xs) \<or> contains sub xs)"

section \<open>The line fixer\<close>

definition import_pattern :: "item list" where
  "import_pattern =
     [Lit (str ''import''), Plus Space, One (Chr 123), Plus NotRBrace, One (Chr 125),
      Plus Space, Lit (str ''from''), Plus Space, One Quote, Lit (str ''@zen/tui''),
      One Quote, One (Chr 59)]"

text \<open>Group 1 of \<open>import_pattern\<close>: its first five items.\<close>

definition import_group1 :: "utext list \<Rightarrow> utext" where
  "import_group1 segs = concat (take 5 segs)"

definition comma_pattern :: "item list" where
  "comma_pattern = [Plus Word, Plus Space, Alt [str ''renderApp'', str ''FullscreenLayout'']]"

definition comma_repl :: "utext list \<Rightarrow> utext" where
  "comma_repl segs = concat (take 1 segs) @ str '', '' @ concat (take 1 (drop 2 segs))"

definition brace_pattern :: "item list" where
  "brace_pattern = [Plus Word, Star Space, One (Chr 125)]"

definition brace_repl :: "utext list \<Rightarrow> utext" where
  "brace_repl segs = concat (take 1 segs) @ str '', FullscreenLayout}''"

definition from_clause :: utext where
  "from_clause = str '' from '@zen/tui';''"

definition fix_import_line :: "(nat \<Rightarrow> bool) \<Rightarrow> utext \<Rightarrow> utext list \<Rightarrow> utext" where
  "fix_import_line uw content segs =
     (let import_stmt = import_group1 segs;
          has_fullscreen_usage = contains (str ''<FullscreenLayout>'') content;
          has_fullscreen_import = contains (str ''FullscreenLayout'') import_stmt;
          import_stmt1 = re_sub uw comma_pattern comma_repl import_stmt;
          import_stmt2 =
            (if has_fullscreen_usage \<and> \<not> has_fullscreen_import
             then re_sub uw brace_pattern brace_repl import_stmt1
             else import_stmt1)
      in import_stmt2 @ from_clause)"

definition fix_imports :: "(nat \<Rightarrow> bool) \<Rightarrow> utext \<Rightarrow> utext" where
  "fix_imports uw content = re_sub uw import_pattern (fix_import_line uw content) content"

section \<open>The matches found by a scan\<close>

text \<open>
  What a successful match looks like: each item of the pattern has consumed a segment
  of its own shape.
\<close>

fun seg_ok :: "(nat \<Rightarrow> bool) \<Rightarrow> item \<Rightarrow> utext \<Rightarrow> bool" where
  "seg_ok uw (One c) seg = (length seg = 1 \<and> list_all (cls uw c) seg)"
| "seg_ok uw (Plus c) seg = (seg \<noteq> [] \<and> list_all (cls uw c) seg)"
| "seg_ok uw (Star c) seg = list_all (cls uw c) seg"
| "seg_ok uw (Lit w) seg = (seg = w)"
| "seg_ok uw (Alt ws) seg = (seg \<in> set ws)"

text \<open>
  The scan of \<open>re.sub\<close> cuts the text into the characters it copies and the matches
  it replaces (what \<open>re.finditer\<close> yields), in order.
\<close>

datatype part = Verbatim nat | Match "utext list"

function re_parts :: "(nat \<Rightarrow> bool) \<Rightarrow> item list \<Rightarrow> utext \<Rightarrow> part list" where
  "re_parts uw p [] = (case rmatch p uw [] of Some segs \<Rightarrow> [Match segs] | None \<Rightarrow> [])"
| "re_parts uw p (x # xs) =
     (case rmatch p uw (x # xs) of
        Some segs \<Rightarrow>
          (if concat segs = [] then Match segs # Verbatim x # re_parts uw p xs
           else Match segs # re_parts uw p (drop (length (concat segs) - 1) xs))
      | None \<Rightarrow> Verbatim x # re_parts uw p xs)"
  by pat_completeness auto
termination
  by (relation "measure (\<lambda>(uw, p, s). length s)") auto

fun part_source :: "part \<Rightarrow> utext" where
  "part_source (Verbatim c) = [c]"
| "part_source (Match segs) = concat segs"

fun part_output :: "(utext list \<Rightarrow> utext) \<Rightarrow> part \<Rightarrow> utext" where
  "part_output f (Verbatim c) = [c]"
| "part_output f (Match segs) = f segs"

section \<open>The per-file processor and the walk\<close>

text \<open>
  The file system as the script sees it. Opening a file for reading and decoding it as
  UTF-8 gives its text or raises; opening it for writing and writing the new text
  succeeds, raises at \<open>open\<close> (the file is as before), or raises during the write
  (the file is left with some other content).
\<close>

datatype exn = FileNotFoundError | PermissionError | UnicodeDecodeError | OSError

datatype rstate = Text utext | Undecodable | Unreadable

datatype wstate = WriteOk | OpenFails | WriteFails utext

record tsx_file =
  rstate :: rstate
  wstate :: wstate

datatype line = ErrorLine string exn | FixedLine string | SummaryLine nat

record world =
  files :: "string \<rightharpoonup> tsx_file"
  stdout :: "line list"
  writes :: nat

definition read_file :: "world \<Rightarrow> string \<Rightarrow> exn + utext" where
  "read_file w path =
     (case files w path of
        None \<Rightarrow> Inl FileNotFoundError
      | Some f \<Rightarrow>
          (case rstate f of
             Text t \<Rightarrow> Inr t
           | Undecodable \<Rightarrow> Inl UnicodeDecodeError
           | Unreadable \<Rightarrow> Inl PermissionError))"

text \<open>
  \<open>write_file\<close> is only called on a path that was read before. Every call counts as
  one write of the invocation, whether it succeeds or not.
\<close>

definition write_file :: "world \<Rightarrow> string \<Rightarrow> utext \<Rightarrow> (exn \<times> world) + world" where
  "write_file w path t =
     (let w1 = w\<lparr>writes := writes w + 1\<rparr> in
      case files w path of
        None \<Rightarrow> Inr (w1\<lparr>files := (files w)(path \<mapsto> \<lparr>rstate = Text t, wstate = WriteOk\<rparr>)\<rparr>)
      | Some f \<Rightarrow>
          (case wstate f of
             WriteOk \<Rightarrow> Inr (w1\<lparr>files := (files w)(path \<mapsto> f\<lparr>rstate := Text t\<rparr>)\<rparr>)
           | OpenFails \<Rightarrow> Inl (PermissionError, w1)
           | WriteFails left \<Rightarrow>
               Inl (OSError, w1\<lparr>files := (files w)(path \<mapsto> f\<lparr>rstate := Text left\<rparr>)\<rparr>)))"

text \<open>The \<open>try\<close> block of \<open>process_file\<close>: \<open>Inl\<close> is the exception it raises.\<close>

definition process_file_try :: "(nat \<Rightarrow> bool) \<Rightarrow> string \<Rightarrow> world \<Rightarrow> (exn \<times> world) + (bool \<times> world)" where
  "process_file_try uw filepath w =
     (case read_file w filepath of
        Inl e \<Rightarrow> Inl (e, w)
      | Inr content \<Rightarrow>
          if \<not> contains (str ''renderApp'') content then Inr (False, w)
          else
            let new_content = fix_imports uw content in
            if new_content \<noteq> content
            then (case write_file w filepath new_content of
                    Inl ew \<Rightarrow> Inl ew
                  | Inr w' \<Rightarrow> Inr (True, w'))
            else Inr (False, w))"

text \<open>\<open>except Exception as e\<close>: print the error line and return \<open>False\<close>.\<close>

definition process_file :: "(nat \<Rightarrow> bool) \<Rightarrow> string \<Rightarrow> world \<Rightarrow> bool \<times> world" where
  "process_file uw filepath w =
     (case process_file_try uw filepath w of
        Inl (e, w') \<Rightarrow> (False, w'\<lparr>stdout := stdout w' @ [ErrorLine filepath e]\<rparr>)
      | Inr r \<Rightarrow> r)"



text \<open>A world with the single file \<open>a.tsx\<close>, nothing printed and nothing written yet.\<close>

definition example_world :: "rstate \<Rightarrow> wstate \<Rightarrow> world" where
  "example_world r wr =
     \<lparr>files = [''a.tsx'' \<mapsto> \<lparr>rstate = r, wstate = wr\<rparr>], stdout = [], writes = 0\<rparr>"

text \<open>A world with the two files \<open>a.tsx\<close> and \<open>b.tsx\<close>, both writable.\<close>

definition example_world2 :: "rstate \<Rightarrow> rstate \<Rightarrow> world" where
  "example_world2 ra rb =
     \<lparr>files = [''a.tsx'' \<mapsto> \<lparr>rstate = ra, wstate = WriteOk\<rparr>,
               ''b.tsx'' \<mapsto> \<lparr>rstate = rb, wstate = WriteOk\<rparr>],
      stdout = [], writes = 0\<rparr>"

section \<open>Properties of the matcher\<close>

lemma greedy_sound:
  "greedy k s lo n = Some r \<Longrightarrow>
     \<exists>m segs. r = take m s # segs \<and> lo \<le> m \<and> m \<le> n \<and> k (drop m s) = Some segs"
proof (induction n)
  case 0
  then show ?case by (auto split: if_splits)
next
  case (Suc n)
  show ?case
  proof (cases "Suc n < lo")
    case True
    with Suc.prems show ?thesis by simp
  next
    case False
    show ?thesis
    proof (cases "k (drop (Suc n) s)")
      case None
      with False Suc.prems have "greedy k s lo n = Some r" by simp
      from Suc.IH[OF this] obtain m segs where
        "r = take m s # segs" "lo \<le> m" "m \<le> n" "k (drop m s) = Some segs" by blast
      then have "r = take m s # segs \<and> lo \<le> m \<and> m \<le> Suc n \<and> k (drop m s) = Some segs"
        by simp
      then show ?thesis by blast
    next
      case (Some segs)
      with False Suc.prems have "r = take (Suc n) s # segs" by simp
      with Some False
      have "r = take (Suc n) s # segs \<and> lo \<le> Suc n \<and> Suc n \<le> Suc n \<and>
            k (drop (Suc n) s) = Some segs" by simp
      then show ?thesis by blast
    qed
  qed
qed

lemma take_run:
  assumes "m \<le> length (takeWhile P s)"
  shows "list_all P (take m s)"
proof -
  have "take m (takeWhile P s) = take m (take (length (takeWhile P s)) s)"
    using takeWhile_eq_take[of P s] by simp
  with assms have eq: "take m s = take m (takeWhile P s)"
    by (simp add: min_def)
  have "\<forall>x \<in> set (takeWhile P s). P x"
    using set_takeWhileD by fastforce
  then have "\<forall>x \<in> set (take m (takeWhile P s)). P x"
    using in_set_takeD by fastforce
  with eq show ?thesis
    by (simp add: list_all_iff)
qed

lemma prefix_take_drop:
  assumes "prefix ys (drop m s)"
  shows "prefix (take m s @ ys) s"
proof -
  from assms obtain zs where "drop m s = ys @ zs"
    by (auto elim: prefixE)
  then have "s = (take m s @ ys) @ zs"
    using append_take_drop_id[of m s] by simp
  then show ?thesis
    by (rule prefixI)
qed

lemma try_alts_sound:
  "try_alts k ws s = Some r \<Longrightarrow>
     \<exists>w segs. r = w # segs \<and> w \<in> set ws \<and> prefix w s \<and> k (drop (length w) s) = Some segs"
  by (induction ws) (auto split: if_splits option.splits)

lemma rmatch_sound:
  "rmatch p uw s = Some segs \<Longrightarrow> list_all2 (seg_ok uw) p segs \<and> prefix (concat segs) s"
proof (induction p arbitrary: s segs)
  case Nil
  then show ?case by simp
next
  case (Cons i r)
  show ?case
  proof (cases i)
    case (One c)
    with Cons.prems obtain x xs rest where s: "s = x # xs" and c: "cls uw c x"
      and r: "rmatch r uw xs = Some rest" and segs: "segs = [x] # rest"
      by (auto split: list.splits if_splits)
    from Cons.IH[OF r] s c segs One show ?thesis by simp
  next
    case (Plus c)
    with Cons.prems have "greedy (rmatch r uw) s 1 (length (takeWhile (cls uw c) s)) = Some segs"
      by simp
    from greedy_sound[OF this] obtain m rest where segs: "segs = take m s # rest"
      and m: "1 \<le> m" "m \<le> length (takeWhile (cls uw c) s)"
      and r: "rmatch r uw (drop m s) = Some rest" by blast
    have "length (takeWhile (cls uw c) s) \<le> length s"
      by (rule length_takeWhile_le)
    with m have ne: "take m s \<noteq> []"
      by auto
    from Cons.IH[OF r] have "prefix (take m s @ concat rest) s"
      by (simp add: prefix_take_drop)
    with Cons.IH[OF r] take_run[OF m(2)] ne segs Plus show ?thesis by simp
  next
    case (Star c)
    with Cons.prems have "greedy (rmatch r uw) s 0 (length (takeWhile (cls uw c) s)) = Some segs"
      by simp
    from greedy_sound[OF this] obtain m rest where segs: "segs = take m s # rest"
      and m: "m \<le> length (takeWhile (cls uw c) s)"
      and r: "rmatch r uw (drop m s) = Some rest" by blast
    from Cons.IH[OF r] have "prefix (take m s @ concat rest) s"
      by (simp add: prefix_take_drop)
    with Cons.IH[OF r] take_run[OF m] segs Star show ?thesis by simp
  next
    case (Lit w)
    with Cons.prems have "try_alts (rmatch r uw) [w] s = Some segs" by simp
    from try_alts_sound[OF this] obtain w' rest where segs: "segs = w' # rest"
      and w: "w' \<in> set [w]" "prefix w' s" and r: "rmatch r uw (drop (length w') s) = Some rest"
      by blast
    from w(2) obtain t where t: "s = w' @ t"
      by (auto elim: prefixE)
    with Cons.IH[OF r] have "prefix (w' @ concat rest) s"
      by simp
    with Cons.IH[OF r] w segs Lit show ?thesis by simp
  next
    case (Alt ws)
    with Cons.prems have "try_alts (rmatch r uw) ws s = Some segs" by simp
    from try_alts_sound[OF this] obtain w' rest where segs: "segs = w' # rest"
      and w: "w' \<in> set ws" "prefix w' s" and r: "rmatch r uw (drop (length w') s) = Some rest"
      by blast
    from w(2) obtain t where t: "s = w' @ t"
      by (auto elim: prefixE)
    with Cons.IH[OF r] have "prefix (w' @ concat rest) s"
      by simp
    with Cons.IH[OF r] w segs Alt show ?thesis by simp
  qed
qed

lemma re_sub_match:
  assumes "rmatch p uw s = Some segs" and "concat segs \<noteq> []"
  shows "re_sub uw p f s = f segs @ re_sub uw p f (drop (length (concat segs)) s)"
proof (cases s)
  case Nil
  with rmatch_sound[OF assms(1)] assms(2) show ?thesis by simp
next
  case (Cons x xs)
  from assms(2) have "length (concat segs) = Suc (length (concat segs) - 1)"
    by (cases "concat segs") simp_all
  then have "drop (length (concat segs)) (x # xs) = drop (length (concat segs) - 1) xs"
    by (metis drop_Suc_Cons)
  with Cons assms show ?thesis by (simp del: concat_eq_Nil_conv)
qed

lemma re_sub_parts:
  "re_sub uw p f s = concat (map (part_output f) (re_parts uw p s))"
  by (induction uw p s rule: re_parts.induct) (simp_all del: concat_eq_Nil_conv split: option.splits)

lemma re_parts_source:
  "concat (map part_source (re_parts uw p s)) = s"
proof (induction uw p s rule: re_parts.induct)
  case (1 uw p)
  show ?case
  proof (cases "rmatch p uw []")
    case None
    then show ?thesis by simp
  next
    case (Some segs)
    with rmatch_sound[OF Some] show ?thesis by simp
  qed
next
  case (2 uw p x xs)
  show ?case
  proof (cases "rmatch p uw (x # xs)")
    case None
    with 2 show ?thesis by simp
  next
    case (Some segs)
    show ?thesis
    proof (cases "concat segs = []")
      case True
      with Some 2 show ?thesis by (simp del: concat_eq_Nil_conv)
    next
      case False
      from rmatch_sound[OF Some] obtain t where t: "x # xs = concat segs @ t"
        by (auto elim: prefixE)
      from False have "length (concat segs) = Suc (length (concat segs) - 1)"
        by (cases "concat segs") simp_all
      then have "drop (length (concat segs) - 1) xs = drop (length (concat segs)) (x # xs)"
        by (metis drop_Suc_Cons)
      also have "\<dots> = t" by (simp add: t)
      finally have d: "drop (length (concat segs) - 1) xs = t" .
      from 2 Some False d
      have "concat (map part_source (re_parts uw p t)) = t"
        by (simp del: concat_eq_Nil_conv)
      moreover from Some False
      have "concat (map part_source (re_parts uw p (x # xs))) =
            concat segs @ concat (map part_source (re_parts uw p (drop (length (concat segs) - 1) xs)))"
        by (simp del: concat_eq_Nil_conv)
      ultimately have "concat (map part_source (re_parts uw p (x # xs))) = concat segs @ t"
        using d by simp
      with t show ?thesis by simp
    qed
  qed
qed

lemma re_parts_match:
  "Match segs \<in> set (re_parts uw p s) \<Longrightarrow> \<exists>t. rmatch p uw t = Some segs"
  by (induction uw p s rule: re_parts.induct)
    (auto simp del: concat_eq_Nil_conv split: option.splits if_splits)

lemma import_match_shape:
  assumes "rmatch import_pattern uw t = Some segs"
  shows "\<exists>ws1 body ws2 ws3 q1 q2.
           segs = [str ''import'', ws1, [123], body, [125], ws2, str ''from'', ws3, [q1],
                   str ''@zen/tui'', [q2], [59]] \<and>
           ws1 \<noteq> [] \<and> list_all is_space ws1 \<and> body \<noteq> [] \<and> list_all (\<lambda>c. c \<noteq> 125) body \<and>
           ws2 \<noteq> [] \<and> list_all is_space ws2 \<and> ws3 \<noteq> [] \<and> list_all is_space ws3 \<and>
           (q1 = 39 \<or> q1 = 34) \<and> (q2 = 39 \<or> q2 = 34)"
proof -
  from rmatch_sound[OF assms] have "list_all2 (seg_ok uw) import_pattern segs" by simp
  then show ?thesis
    by (auto simp: import_pattern_def list_all2_Cons1 length_Suc_conv list_all_iff)
qed

lemma comma_match_shape:
  assumes "rmatch comma_pattern uw t = Some segs"
  shows "\<exists>w sp nm. segs = [w, sp, nm] \<and> w \<noteq> [] \<and> list_all (is_word uw) w \<and>
           sp \<noteq> [] \<and> list_all is_space sp \<and>
           (nm = str ''renderApp'' \<or> nm = str ''FullscreenLayout'')"
proof -
  from rmatch_sound[OF assms] have "list_all2 (seg_ok uw) comma_pattern segs" by simp
  then show ?thesis
    by (auto simp: comma_pattern_def list_all2_Cons1 list_all_iff)
qed

lemma brace_match_shape:
  assumes "rmatch brace_pattern uw t = Some segs"
  shows "\<exists>w sp. segs = [w, sp, [125]] \<and> w \<noteq> [] \<and> list_all (is_word uw) w \<and>
           list_all is_space sp"
proof -
  from rmatch_sound[OF assms] have "list_all2 (seg_ok uw) brace_pattern segs" by simp
  then show ?thesis
    by (auto simp: brace_pattern_def list_all2_Cons1 length_Suc_conv list_all_iff)
qed

lemma count_list_concat:
  "count_list (concat xss) c = sum_list (map (\<lambda>xs. count_list xs c) xss)"
  by (induction xss) simp_all

lemma count_list_zero:
  "list_all P xs \<Longrightarrow> \<not> P c \<Longrightarrow> count_list xs c = 0"
  by (induction xs) auto

lemma not_space_dquote: "\<not> is_space 34"
  by (simp add: is_space_def)

lemma sum_list_strict:
  fixes f g :: "'a \<Rightarrow> nat"
  assumes "\<forall>p \<in> set ps. f p \<le> g p" and "\<exists>p \<in> set ps. f p < g p"
  shows "sum_list (map f ps) < sum_list (map g ps)"
  using assms
proof (induction ps)
  case Nil
  then show ?case by simp
next
  case (Cons a ps)
  have le: "sum_list (map f ps) \<le> sum_list (map g ps)"
    using Cons.prems(1) by (simp add: sum_list_mono)
  show ?case
  proof (cases "f a < g a")
    case True
    with le show ?thesis by simp
  next
    case False
    with Cons.prems have "\<exists>p \<in> set ps. f p < g p" by auto
    moreover from Cons.prems(1) have "\<forall>p \<in> set ps. f p \<le> g p" by simp
    ultimately have "sum_list (map f ps) < sum_list (map g ps)" by (rule Cons.IH[rotated])
    moreover from Cons.prems(1) have "f a \<le> g a" by simp
    ultimately show ?thesis by simp
  qed
qed

lemma re_sub_count:
  assumes "\<And>t segs. rmatch p uw t = Some segs \<Longrightarrow> count_list (f segs) c = count_list (concat segs) c"
  shows "count_list (re_sub uw p f s) c = count_list s c"
proof -
  have "\<forall>pt \<in> set (re_parts uw p s). count_list (part_output f pt) c = count_list (part_source pt) c"
  proof
    fix pt assume pt: "pt \<in> set (re_parts uw p s)"
    show "count_list (part_output f pt) c = count_list (part_source pt) c"
    proof (cases pt)
      case (Verbatim x)
      then show ?thesis by simp
    next
      case (Match segs)
      with pt re_parts_match obtain t where "rmatch p uw t = Some segs" by blast
      from assms[OF this] Match show ?thesis by simp
    qed
  qed
  then have "map (\<lambda>xs. count_list xs c) (map (part_output f) (re_parts uw p s))
           = map (\<lambda>xs. count_list xs c) (map part_source (re_parts uw p s))"
    by simp
  then have "count_list (concat (map (part_output f) (re_parts uw p s))) c
           = count_list (concat (map part_source (re_parts uw p s))) c"
    by (simp only: count_list_concat)
  then show ?thesis
    by (simp add: re_sub_parts re_parts_source)
qed

lemma comma_fix_dquotes:
  "count_list (re_sub uw comma_pattern comma_repl s) 34 = count_list s 34"
proof (rule re_sub_count)
  fix t segs assume "rmatch comma_pattern uw t = Some segs"
  from comma_match_shape[OF this] obtain w sp nm where
    "segs = [w, sp, nm]" "list_all is_space sp" by blast
  then show "count_list (comma_repl segs) 34 = count_list (concat segs) 34"
    using count_list_zero[of is_space sp 34] not_space_dquote
    by (simp add: comma_repl_def str_def)
qed

lemma brace_fix_dquotes:
  "count_list (re_sub uw brace_pattern brace_repl s) 34 = count_list s 34"
proof (rule re_sub_count)
  fix t segs assume "rmatch brace_pattern uw t = Some segs"
  from brace_match_shape[OF this] obtain w sp where
    "segs = [w, sp, [125]]" "list_all is_space sp" by blast
  then show "count_list (brace_repl segs) 34 = count_list (concat segs) 34"
    using count_list_zero[of is_space sp 34] not_space_dquote
    by (simp add: brace_repl_def str_def)
qed

lemma fix_import_line_dquotes:
  "count_list (fix_import_line uw content segs) 34 = count_list (import_group1 segs) 34"
  by (simp add: fix_import_line_def Let_def comma_fix_dquotes brace_fix_dquotes from_clause_def str_def)

lemma import_match_dquotes:
  assumes "rmatch import_pattern uw t = Some segs"
  shows "count_list (fix_import_line uw content segs) 34 \<le> count_list (concat segs) 34"
    and "segs ! 8 = [34] \<or> segs ! 10 = [34] \<Longrightarrow>
         count_list (fix_import_line uw content segs) 34 < count_list (concat segs) 34"
proof -
  from import_match_shape[OF assms] obtain ws1 body ws2 ws3 q1 q2 where
    segs: "segs = [str ''import'', ws1, [123], body, [125], ws2, str ''from'', ws3, [q1],
                   str ''@zen/tui'', [q2], [59]]" by blast
  show "count_list (fix_import_line uw content segs) 34 \<le> count_list (concat segs) 34"
    by (simp add: fix_import_line_dquotes import_group1_def segs)
  assume "segs ! 8 = [34] \<or> segs ! 10 = [34]"
  then show "count_list (fix_import_line uw content segs) 34 < count_list (concat segs) 34"
    by (auto simp: fix_import_line_dquotes import_group1_def segs)
qed

lemma fix_imports_dquotes:
  assumes "Match segs \<in> set (re_parts uw import_pattern content)"
    and "segs ! 8 = [34] \<or> segs ! 10 = [34]"
  shows "count_list (fix_imports uw content) 34 < count_list content 34"
proof -
  let ?ps = "re_parts uw import_pattern content"
  let ?f = "\<lambda>pt. count_list (part_output (fix_import_line uw content) pt) 34"
  let ?g = "\<lambda>pt. count_list (part_source pt) 34"
  have le: "\<forall>pt \<in> set ?ps. ?f pt \<le> ?g pt"
  proof
    fix pt assume pt: "pt \<in> set ?ps"
    show "?f pt \<le> ?g pt"
    proof (cases pt)
      case (Verbatim x)
      then show ?thesis by simp
    next
      case (Match sg)
      with pt re_parts_match obtain t where "rmatch import_pattern uw t = Some sg" by blast
      from import_match_dquotes(1)[OF this] Match show ?thesis by simp
    qed
  qed
  from assms(1) re_parts_match obtain t where "rmatch import_pattern uw t = Some segs" by blast
  from import_match_dquotes(2)[OF this assms(2)]
  have "?f (Match segs) < ?g (Match segs)" by simp
  with assms(1) have "\<exists>pt \<in> set ?ps. ?f pt < ?g pt" by blast
  with le have "sum_list (map ?f ?ps) < sum_list (map ?g ?ps)" by (rule sum_list_strict)
  then have "count_list (concat (map (part_output (fix_import_line uw content)) ?ps)) 34
           < count_list (concat (map part_source ?ps)) 34"
    by (simp add: count_list_concat comp_def)
  then show ?thesis
    by (simp add: fix_imports_def re_sub_parts re_parts_source)
qed

lemma contains_iff: "contains sub s \<longleftrightarrow> (\<exists>a b. s = a @ sub @ b)"
proof (induction s)
  case Nil
  then show ?case by simp
next
  case (Cons x xs)
  show ?case
  proof
    assume "contains sub (x # xs)"
    then consider "prefix sub (x # xs)" | "contains sub xs" by auto
    then show "\<exists>a b. x # xs = a @ sub @ b"
    proof cases
      case 1
      then obtain b where "x # xs = sub @ b" by (auto elim: prefixE)
      then have "x # xs = [] @ sub @ b" by simp
      then show ?thesis by blast
    next
      case 2
      with Cons.IH obtain a b where "xs = a @ sub @ b" by blast
      then have "x # xs = (x # a) @ sub @ b" by simp
      then show ?thesis by blast
    qed
  next
    assume "\<exists>a b. x # xs = a @ sub @ b"
    then obtain a b where ab: "x # xs = a @ sub @ b" by blast
    show "contains sub (x # xs)"
    proof (cases a)
      case Nil
      with ab have "prefix sub (x # xs)" by simp
      then show ?thesis by simp
    next
      case (Cons y ys)
      with ab have "xs = ys @ sub @ b" by simp
      with Cons.IH have "contains sub xs" by blast
      then show ?thesis by simp
    qed
  qed
qed





lemma re_sub_skip:
  assumes "\<forall>i < length pre. rmatch p uw (drop i (pre @ s)) = None"
  shows "re_sub uw p f (pre @ s) = pre @ re_sub uw p f s"
  using assms
proof (induction pre)
  case Nil
  then show ?case by simp
next
  case (Cons x pre)
  from Cons.prems have "rmatch p uw (drop 0 ((x # pre) @ s)) = None" by blast
  then have h: "rmatch p uw (x # pre @ s) = None" by simp
  have "\<forall>i < length pre. rmatch p uw (drop i (pre @ s)) = None"
  proof (intro allI impI)
    fix i assume "i < length pre"
    then have "Suc i < length (x # pre)" by simp
    with Cons.prems have "rmatch p uw (drop (Suc i) ((x # pre) @ s)) = None" by blast
    then show "rmatch p uw (drop i (pre @ s)) = None" by simp
  qed
  with Cons.IH have "re_sub uw p f (pre @ s) = pre @ re_sub uw p f s" by simp
  with h show ?case by simp
qed

lemma read_file_stdout [simp]:
  "read_file (w\<lparr>stdout := out\<rparr>) q = read_file w q"
  by (simp add: read_file_def)



lemma write_then_read:
  assumes "read_file w p = Inr c" and "write_file w p t = Inr w'"
  shows "read_file w' p = Inr t"
  using assms
  by (auto simp: read_file_def write_file_def Let_def split: option.splits rstate.splits wstate.splits)

lemma re_sub_filter:
  assumes "\<And>t segs. rmatch p uw t = Some segs \<Longrightarrow> filter P (f segs) = filter P (concat segs)"
  shows "filter P (re_sub uw p f s) = filter P s"
proof -
  have "\<forall>pt \<in> set (re_parts uw p s). filter P (part_output f pt) = filter P (part_source pt)"
  proof
    fix pt assume pt: "pt \<in> set (re_parts uw p s)"
    show "filter P (part_output f pt) = filter P (part_source pt)"
    proof (cases pt)
      case (Verbatim x)
      then show ?thesis by simp
    next
      case (Match segs)
      with pt re_parts_match obtain t where "rmatch p uw t = Some segs" by blast
      from assms[OF this] Match show ?thesis by simp
    qed
  qed
  then have "map (filter P) (map (part_output f) (re_parts uw p s))
           = map (filter P) (map part_source (re_parts uw p s))"
    by simp
  then have "concat (map (filter P) (map (part_output f) (re_parts uw p s)))
           = concat (map (filter P) (map part_source (re_parts uw p s)))"
    by (rule arg_cong)
  then have "filter P (concat (map (part_output f) (re_parts uw p s)))
           = filter P (concat (map part_source (re_parts uw p s)))"
    by (simp only: filter_concat)
  then show ?thesis
    by (simp only: re_sub_parts re_parts_source)
qed

lemma filter_spaces:
  "list_all is_space sp \<Longrightarrow> filter (\<lambda>c. c \<noteq> 44 \<and> \<not> is_space c) sp = []"
  by (induction sp) auto

lemma is_space_blank: "is_space 32"
  by (simp add: is_space_def)

lemma comma_fix_letters:
  "filter (\<lambda>c. c \<noteq> 44 \<and> \<not> is_space c) (re_sub uw comma_pattern comma_repl s)
     = filter (\<lambda>c. c \<noteq> 44 \<and> \<not> is_space c) s"
proof (rule re_sub_filter)
  fix t segs assume "rmatch comma_pattern uw t = Some segs"
  from comma_match_shape[OF this] obtain w sp nm where
    "segs = [w, sp, nm]" "list_all is_space sp" by blast
  then show "filter (\<lambda>c. c \<noteq> 44 \<and> \<not> is_space c) (comma_repl segs)
           = filter (\<lambda>c. c \<noteq> 44 \<and> \<not> is_space c) (concat segs)"
    by (simp add: comma_repl_def filter_spaces str_def is_space_blank)
qed


lemma decl_match:
  "rmatch import_pattern uw (str ''import { renderApp } from '@zen/tui';'' @ r)
     = Some [str ''import'', str '' '', str ''{'', str '' renderApp '', str ''}'', str '' '',
             str ''from'', str '' '', [39], str ''@zen/tui'', [39], str '';'']"
  by (simp add: import_pattern_def str_def is_space_def)

lemma decl_fix:
  assumes "contains (str ''<FullscreenLayout>'') content"
  shows "fix_import_line uw content
           [str ''import'', str '' '', str ''{'', str '' renderApp '', str ''}'', str '' '',
            str ''from'', str '' '', [39], str ''@zen/tui'', [39], str '';'']
         = str ''import { renderApp, FullscreenLayout} from '@zen/tui';''"
  using assms by (simp add: fix_import_line_def import_group1_def
      comma_pattern_def comma_repl_def brace_pattern_def brace_repl_def from_clause_def str_def
      is_space_def is_word_def)

lemma decl_segs:
  assumes "rmatch import_pattern uw t = Some segs"
    and "concat segs = str ''import { renderApp } from '@zen/tui';''"
  shows "segs = [str ''import'', str '' '', str ''{'', str '' renderApp '', str ''}'', str '' '',
                 str ''from'', str '' '', [39], str ''@zen/tui'', [39], str '';'']"
proof -
  from rmatch_sound[OF assms(1)] assms(2) obtain r where
    "t = str ''import { renderApp } from '@zen/tui';'' @ r"
    by (auto elim: prefixE)
  with assms(1) decl_match[of uw r] show ?thesis by simp
qed

lemma pre_nomatch:
  "\<forall>i < length (str ''import React from 'react'; '').
     rmatch import_pattern ascii_db
       (drop i (str ''import React from 'react'; '' @ str ''import { renderApp } from '@zen/tui';'' @
                str '' <FullscreenLayout>'')) = None"
  by (simp add: str_def import_pattern_def is_space_def All_less_Suc)

lemmas eval_defs = fix_imports_def fix_import_line_def import_pattern_def import_group1_def
  comma_pattern_def comma_repl_def brace_pattern_def brace_repl_def from_clause_def str_def
  is_space_def is_word_def

lemmas world_defs = process_file_def process_file_try_def read_file_def write_file_def
  example_world_def example_world2_def Let_def

section \<open>The claims\<close>

text \<open>
  C5. On the text \<^verbatim>\<open>import { foo renderApp } from '@zen/tui';\<close> the line fixer
  returns exactly \<^verbatim>\<open>import { foo, renderApp } from '@zen/tui';\<close>: a comma is put
  between the two adjacent identifiers of the braced list.
\<close>

theorem separator_repair:
  "fix_imports uw (str ''import { foo renderApp } from '@zen/tui';'')
     = str ''import { foo, renderApp } from '@zen/tui';''"
  by (simp add: eval_defs)

text \<open>
  C1, as stated, fails, in two ways. For the file made of the declaration
  \<^verbatim>\<open>import { renderApp } from '@zen/tui';\<close> followed by the marker, the output is not
  the declaration with \<^verbatim>\<open>FullscreenLayout }\<close> (a blank before the brace). And a file
  may contain the declaration and the marker and still come back unchanged: when an
  earlier \<^verbatim>\<open>import {\<close> is left open, the match begins there and the declaration is
  only the end of it.
\<close>

theorem missing_symbol_claimed_output_counterexample:
  "fix_imports ascii_db (str ''import { renderApp } from '@zen/tui'; <FullscreenLayout>'')
     \<noteq> str ''import { renderApp, FullscreenLayout } from '@zen/tui'; <FullscreenLayout>'' \<and>
   fix_imports ascii_db
     (str ''import { FullscreenLayout import { renderApp } from '@zen/tui'; <FullscreenLayout>'')
     = str ''import { FullscreenLayout import { renderApp } from '@zen/tui'; <FullscreenLayout>''"
  by (simp add: eval_defs)

text \<open>
  C1, amended. In a file that contains \<^verbatim>\<open><FullscreenLayout>\<close> somewhere, every
  match of the scan whose text is the declaration \<^verbatim>\<open>import { renderApp } from '@zen/tui';\<close>
  is rewritten to exactly \<^verbatim>\<open>import { renderApp, FullscreenLayout} from '@zen/tui';\<close>:
  the symbol is appended before the closing brace and the blank that stood before the
  brace is consumed. Wherever the scan matches the declaration, the output is the output
  of the parts before it, the rewritten declaration, and the output of the parts after
  it; when no match begins in the text before the declaration, that text is copied as it
  is.
\<close>

theorem missing_symbol_repair:
  assumes "contains (str ''<FullscreenLayout>'') content"
  shows "(\<forall>segs. Match segs \<in> set (re_parts uw import_pattern content) \<longrightarrow>
            concat segs = str ''import { renderApp } from '@zen/tui';'' \<longrightarrow>
            fix_import_line uw content segs
              = str ''import { renderApp, FullscreenLayout} from '@zen/tui';'') \<and>
         (\<forall>ps segs qs. re_parts uw import_pattern content = ps @ Match segs # qs \<longrightarrow>
            concat segs = str ''import { renderApp } from '@zen/tui';'' \<longrightarrow>
            content = concat (map part_source ps) @ str ''import { renderApp } from '@zen/tui';'' @
                      concat (map part_source qs) \<and>
            fix_imports uw content
              = concat (map (part_output (fix_import_line uw content)) ps) @
                str ''import { renderApp, FullscreenLayout} from '@zen/tui';'' @
                concat (map (part_output (fix_import_line uw content)) qs)) \<and>
         (\<forall>pre rest. content = pre @ str ''import { renderApp } from '@zen/tui';'' @ rest \<longrightarrow>
            (\<forall>i < length pre. rmatch import_pattern uw (drop i content) = None) \<longrightarrow>
            fix_imports uw content
              = pre @ str ''import { renderApp, FullscreenLayout} from '@zen/tui';'' @
                re_sub uw import_pattern (fix_import_line uw content) rest)"
proof (intro conjI allI impI)
  fix segs
  assume m: "Match segs \<in> set (re_parts uw import_pattern content)"
    and c: "concat segs = str ''import { renderApp } from '@zen/tui';''"
  from m re_parts_match obtain t where "rmatch import_pattern uw t = Some segs" by blast
  from decl_segs[OF this c] decl_fix[OF assms]
  show "fix_import_line uw content segs = str ''import { renderApp, FullscreenLayout} from '@zen/tui';''"
    by simp
next
  fix ps segs qs
  assume e: "re_parts uw import_pattern content = ps @ Match segs # qs"
    and c: "concat segs = str ''import { renderApp } from '@zen/tui';''"
  from e have "Match segs \<in> set (re_parts uw import_pattern content)" by simp
  with re_parts_match obtain t where "rmatch import_pattern uw t = Some segs" by blast
  from decl_segs[OF this c] decl_fix[OF assms]
  have f: "fix_import_line uw content segs = str ''import { renderApp, FullscreenLayout} from '@zen/tui';''"
    by simp
  have "concat (map part_source (re_parts uw import_pattern content)) = content"
    by (rule re_parts_source)
  with e c show "content = concat (map part_source ps) @ str ''import { renderApp } from '@zen/tui';'' @
                      concat (map part_source qs)"
    by simp
  have "fix_imports uw content =
     concat (map (part_output (fix_import_line uw content)) (re_parts uw import_pattern content))"
    by (simp add: fix_imports_def re_sub_parts)
  with e f show "fix_imports uw content
              = concat (map (part_output (fix_import_line uw content)) ps) @
                str ''import { renderApp, FullscreenLayout} from '@zen/tui';'' @
                concat (map (part_output (fix_import_line uw content)) qs)"
    by simp
next
  fix pre rest
  assume c: "content = pre @ str ''import { renderApp } from '@zen/tui';'' @ rest"
    and n: "\<forall>i < length pre. rmatch import_pattern uw (drop i content) = None"
  let ?d = "str ''import { renderApp } from '@zen/tui';''"
  let ?segs = "[str ''import'', str '' '', str ''{'', str '' renderApp '', str ''}'', str '' '',
                str ''from'', str '' '', [39], str ''@zen/tui'', [39], str '';'']"
  let ?f = "fix_import_line uw content"
  from n c have "re_sub uw import_pattern ?f (pre @ ?d @ rest) = pre @ re_sub uw import_pattern ?f (?d @ rest)"
    by (intro re_sub_skip) simp
  moreover have ne: "concat ?segs \<noteq> []" by (simp add: str_def)
  have dr: "drop (length (concat ?segs)) (?d @ rest) = rest" by (simp add: str_def)
  from re_sub_match[OF decl_match[of uw rest] ne, where f = ?f] dr
  have "re_sub uw import_pattern ?f (?d @ rest) = ?f ?segs @ re_sub uw import_pattern ?f rest"
    by simp
  ultimately show "fix_imports uw content
              = pre @ str ''import { renderApp, FullscreenLayout} from '@zen/tui';'' @
                re_sub uw import_pattern (fix_import_line uw content) rest"
    using decl_fix[OF assms] c by (simp add: fix_imports_def)
qed

theorem missing_symbol_repair_witness:
  "contains (str ''<FullscreenLayout>'')
     (str ''import React from 'react'; import { renderApp } from '@zen/tui'; <FullscreenLayout>'') \<and>
   Match [str ''import'', str '' '', str ''{'', str '' renderApp '', str ''}'', str '' '',
          str ''from'', str '' '', [39], str ''@zen/tui'', [39], str '';'']
     \<in> set (re_parts ascii_db import_pattern
        (str ''import React from 'react'; import { renderApp } from '@zen/tui'; <FullscreenLayout>'')) \<and>
   fix_imports ascii_db
     (str ''import React from 'react'; import { renderApp } from '@zen/tui'; <FullscreenLayout>'')
     = str ''import React from 'react'; import { renderApp, FullscreenLayout} from '@zen/tui'; <FullscreenLayout>''"
proof -
  let ?c = "str ''import React from 'react'; import { renderApp } from '@zen/tui'; <FullscreenLayout>''"
  have h: "contains (str ''<FullscreenLayout>'') ?c"
    by (simp add: str_def)
  have m: "Match [str ''import'', str '' '', str ''{'', str '' renderApp '', str ''}'', str '' '',
          str ''from'', str '' '', [39], str ''@zen/tui'', [39], str '';'']
     \<in> set (re_parts ascii_db import_pattern ?c)"
    by (simp add: str_def import_pattern_def is_space_def)
  have c: "?c = str ''import React from 'react'; '' @ str ''import { renderApp } from '@zen/tui';'' @
                str '' <FullscreenLayout>''"
    by (simp add: str_def)
  have n: "\<forall>i < length (str ''import React from 'react'; '').
             rmatch import_pattern ascii_db (drop i ?c) = None"
    using pre_nomatch by (simp add: str_def)
  have r: "re_sub ascii_db import_pattern f (str '' <FullscreenLayout>'') = str '' <FullscreenLayout>''" for f
    by (simp add: str_def import_pattern_def)
  from missing_symbol_repair[OF h, of ascii_db] c n
  have "fix_imports ascii_db ?c
      = str ''import React from 'react'; '' @
        str ''import { renderApp, FullscreenLayout} from '@zen/tui';'' @
        re_sub ascii_db import_pattern (fix_import_line ascii_db ?c) (str '' <FullscreenLayout>'')"
    by blast
  with r have "fix_imports ascii_db ?c
      = str ''import React from 'react'; import { renderApp, FullscreenLayout} from '@zen/tui'; <FullscreenLayout>''"
    by (simp add: str_def)
  with h m show ?thesis by blast
qed

text \<open>
  C2. Idempotence of the line fixer fails on a list with two reserved names in a row:
  the first application puts a comma before \<open>renderApp\<close> only, since the match
  that inserts it has consumed \<open>renderApp\<close>; the second application puts the comma
  before \<open>FullscreenLayout\<close>. The theorem evaluates both applications.
\<close>

theorem fix_imports_not_idempotent:
  "fix_imports ascii_db (str ''import { a renderApp FullscreenLayout } from '@zen/tui';'')
     = str ''import { a, renderApp FullscreenLayout } from '@zen/tui';'' \<and>
   fix_imports ascii_db (str ''import { a, renderApp FullscreenLayout } from '@zen/tui';'')
     = str ''import { a, renderApp, FullscreenLayout } from '@zen/tui';''"
  by (simp add: eval_defs)

text \<open>
  C3. A file that is read without error and whose content does not contain
  \<open>renderApp\<close> is skipped: the processor returns \<open>False\<close> and the world is as
  before (the file, the output and the count of writes are unchanged).
\<close>

theorem selectivity:
  assumes "read_file w filepath = Inr content"
    and "\<not> contains (str ''renderApp'') content"
  shows "process_file uw filepath w = (False, w)"
  using assms by (simp add: process_file_def process_file_try_def)

theorem selectivity_witness:
  "read_file (example_world (Text (str ''const x = 1;'')) WriteOk) ''a.tsx''
     = Inr (str ''const x = 1;'') \<and>
   \<not> contains (str ''renderApp'') (str ''const x = 1;'') \<and>
   process_file ascii_db ''a.tsx'' (example_world (Text (str ''const x = 1;'')) WriteOk)
     = (False, example_world (Text (str ''const x = 1;'')) WriteOk)"
proof -
  have r: "read_file (example_world (Text (str ''const x = 1;'')) WriteOk) ''a.tsx''
     = Inr (str ''const x = 1;'')"
    by (simp add: read_file_def example_world_def)
  have c: "\<not> contains (str ''renderApp'') (str ''const x = 1;'')"
    by (simp add: str_def)
  from selectivity[OF r c, of ascii_db] r c show ?thesis by simp
qed



text \<open>
  C4, as stated, fails for the per-file processor: a file whose only import is written
  with double quotes, and which does not contain \<open>renderApp\<close>, is skipped. The
  processor returns \<open>False\<close> and the file keeps its double quotes, although the line
  fixer alone would rewrite it.
\<close>

theorem quote_only_skipped_counterexample:
  "read_file (example_world (Text (str ''import { foo } from '' @ [34] @ str ''@zen/tui'' @ [34] @ str '';'')) WriteOk)
      ''a.tsx''
     = Inr (str ''import { foo } from '' @ [34] @ str ''@zen/tui'' @ [34] @ str '';'') \<and>
   process_file ascii_db ''a.tsx''
      (example_world (Text (str ''import { foo } from '' @ [34] @ str ''@zen/tui'' @ [34] @ str '';'')) WriteOk)
     = (False,
        example_world (Text (str ''import { foo } from '' @ [34] @ str ''@zen/tui'' @ [34] @ str '';'')) WriteOk) \<and>
   fix_imports ascii_db (str ''import { foo } from '' @ [34] @ str ''@zen/tui'' @ [34] @ str '';'')
     = str ''import { foo } from '@zen/tui';''"
  by (simp add: world_defs eval_defs)

text \<open>
  C4, amended. When the scan matches an import declaration of \<open>@zen/tui\<close> written with
  a double quote (at either side of the module name: segments 8 and 10 of a match are
  what the two quote items of the pattern consumed), the line fixer rewrites that
  declaration to end in \<^verbatim>\<open> from '@zen/tui';\<close>, its output has fewer double quotes than
  the input and so differs from it, even if no other repair applies; and for a file with
  that content which also contains \<open>renderApp\<close>, the processor writes the output and
  returns \<open>True\<close> when the write succeeds.
\<close>

theorem quote_normalization:
  assumes "Match segs \<in> set (re_parts uw import_pattern content)"
    and "segs ! 8 = [34] \<or> segs ! 10 = [34]"
  shows "fix_imports uw content \<noteq> content \<and>
         (\<exists>body. fix_import_line uw content segs = body @ str '' from '@zen/tui';'') \<and>
         count_list (fix_imports uw content) 34 < count_list content 34 \<and>
         (\<forall>w p w'. read_file w p = Inr content \<longrightarrow> contains (str ''renderApp'') content \<longrightarrow>
            write_file w p (fix_imports uw content) = Inr w' \<longrightarrow>
            process_file uw p w = (True, w') \<and> read_file w' p = Inr (fix_imports uw content))"
proof (intro conjI allI impI)
  from fix_imports_dquotes[OF assms]
  show lt: "count_list (fix_imports uw content) 34 < count_list content 34" .
  then show ne: "fix_imports uw content \<noteq> content" by auto
  show "\<exists>body. fix_import_line uw content segs = body @ str '' from '@zen/tui';''"
    by (simp add: fix_import_line_def Let_def from_clause_def)
  fix w p w'
  assume r: "read_file w p = Inr content" and c: "contains (str ''renderApp'') content"
    and wr: "write_file w p (fix_imports uw content) = Inr w'"
  with ne show "process_file uw p w = (True, w')"
    by (simp add: process_file_def process_file_try_def)
  from write_then_read[OF r wr] show "read_file w' p = Inr (fix_imports uw content)" .
qed

theorem quote_normalization_witness:
  "Match [str ''import'', str '' '', str ''{'', str '' renderApp '', str ''}'', str '' '',
          str ''from'', str '' '', [34], str ''@zen/tui'', [34], str '';'']
     \<in> set (re_parts ascii_db import_pattern
          (str ''import { renderApp } from '' @ [34] @ str ''@zen/tui'' @ [34] @ str '';'')) \<and>
   fix_imports ascii_db (str ''import { renderApp } from '' @ [34] @ str ''@zen/tui'' @ [34] @ str '';'')
     = str ''import { renderApp } from '@zen/tui';'' \<and>
   process_file ascii_db ''a.tsx''
     (example_world (Text (str ''import { renderApp } from '' @ [34] @ str ''@zen/tui'' @ [34] @ str '';''))
        WriteOk)
     = (True, (example_world (Text (str ''import { renderApp } from '@zen/tui';'')) WriteOk)
                \<lparr>writes := 1\<rparr>)"
proof -
  let ?c = "str ''import { renderApp } from '' @ [34] @ str ''@zen/tui'' @ [34] @ str '';''"
  let ?segs = "[str ''import'', str '' '', str ''{'', str '' renderApp '', str ''}'', str '' '',
          str ''from'', str '' '', [34], str ''@zen/tui'', [34], str '';'']"
  let ?w = "example_world (Text ?c) WriteOk"
  let ?w' = "(example_world (Text (str ''import { renderApp } from '@zen/tui';'')) WriteOk)\<lparr>writes := 1\<rparr>"
  have m: "Match ?segs \<in> set (re_parts ascii_db import_pattern ?c)"
    by (simp add: str_def import_pattern_def is_space_def)
  have q: "?segs ! 8 = [34] \<or> ?segs ! 10 = [34]"
    by simp
  have fx: "fix_imports ascii_db ?c = str ''import { renderApp } from '@zen/tui';''"
    by (simp add: eval_defs)
  have r: "read_file ?w ''a.tsx'' = Inr ?c"
    by (simp add: read_file_def example_world_def)
  have c: "contains (str ''renderApp'') ?c"
    by (simp add: str_def)
  have wr: "write_file ?w ''a.tsx'' (fix_imports ascii_db ?c) = Inr ?w'"
    unfolding fx by (simp add: write_file_def example_world_def)
  from quote_normalization[OF m q, THEN conjunct2, THEN conjunct2, THEN conjunct2, rule_format,
      OF r c wr, THEN conjunct1]
  have "process_file ascii_db ''a.tsx'' ?w = (True, ?w')" .
  with m fx show ?thesis by (intro conjI)
qed

text \<open>
  C6. When \<open>FullscreenLayout\<close> already occurs in the matched import list, the
  missing-symbol repair does not run, whatever the file contains: the declaration becomes
  the list after the comma repair followed by the \<open>from\<close> clause, and that list has
  the characters of the original list other than commas and whitespace, in the same
  order, so no second copy of the symbol is added.
\<close>

theorem no_spurious_duplication:
  assumes "contains (str ''FullscreenLayout'') (import_group1 segs)"
  shows "fix_import_line uw content segs
           = re_sub uw comma_pattern comma_repl (import_group1 segs) @ str '' from '@zen/tui';'' \<and>
         filter (\<lambda>c. c \<noteq> 44 \<and> \<not> is_space c)
             (re_sub uw comma_pattern comma_repl (import_group1 segs))
           = filter (\<lambda>c. c \<noteq> 44 \<and> \<not> is_space c) (import_group1 segs)"
  using assms by (simp add: fix_import_line_def Let_def from_clause_def comma_fix_letters)

theorem no_spurious_duplication_witness:
  "contains (str ''FullscreenLayout'')
     (import_group1 [str ''import'', str '' '', str ''{'', str '' renderApp FullscreenLayout '',
        str ''}'', str '' '', str ''from'', str '' '', [39], str ''@zen/tui'', [39], str '';'']) \<and>
   fix_import_line ascii_db (str ''<FullscreenLayout>'')
     [str ''import'', str '' '', str ''{'', str '' renderApp FullscreenLayout '',
        str ''}'', str '' '', str ''from'', str '' '', [39], str ''@zen/tui'', [39], str '';'']
     = str ''import { renderApp, FullscreenLayout } from '@zen/tui';''"
proof -
  let ?segs = "[str ''import'', str '' '', str ''{'', str '' renderApp FullscreenLayout '',
        str ''}'', str '' '', str ''from'', str '' '', [39], str ''@zen/tui'', [39], str '';'']"
  have h: "contains (str ''FullscreenLayout'') (import_group1 ?segs)"
    by (simp add: import_group1_def str_def)
  have r: "re_sub ascii_db comma_pattern comma_repl (import_group1 ?segs)
             = str ''import { renderApp, FullscreenLayout }''"
    by (simp add: import_group1_def comma_pattern_def comma_repl_def str_def is_space_def is_word_def)
  from no_spurious_duplication[OF h, of ascii_db "str ''<FullscreenLayout>''", THEN conjunct1] r
  have "fix_import_line ascii_db (str ''<FullscreenLayout>'') ?segs
     = str ''import { renderApp, FullscreenLayout } from '@zen/tui';''"
    by (simp add: str_def)
  with h show ?thesis by (intro conjI)
qed




text \<open>
  C9. The test that suppresses the missing-symbol repair is a substring test on the
  matched import statement: whenever the statement is some text, \<open>FullscreenLayout\<close>,
  and some text, the symbol is not appended. With \<open>FullscreenLayoutProps\<close> in the
  list and the marker in the file the text comes back unchanged, while with
  \<open>LayoutProps\<close> the symbol is appended.
\<close>

theorem substring_suppresses_repair:
  "(import_group1 segs = pre @ str ''FullscreenLayout'' @ suf \<longrightarrow>
      fix_import_line uw content segs
        = re_sub uw comma_pattern comma_repl (import_group1 segs) @ str '' from '@zen/tui';'') \<and>
   fix_imports uw (str ''import { FullscreenLayoutProps } from '@zen/tui'; <FullscreenLayout>'')
     = str ''import { FullscreenLayoutProps } from '@zen/tui'; <FullscreenLayout>'' \<and>
   fix_imports uw (str ''import { LayoutProps } from '@zen/tui'; <FullscreenLayout>'')
     = str ''import { LayoutProps, FullscreenLayout} from '@zen/tui'; <FullscreenLayout>''"
proof (intro conjI impI)
  assume "import_group1 segs = pre @ str ''FullscreenLayout'' @ suf"
  then have "contains (str ''FullscreenLayout'') (import_group1 segs)"
    unfolding contains_iff by blast
  then show "fix_import_line uw content segs
        = re_sub uw comma_pattern comma_repl (import_group1 segs) @ str '' from '@zen/tui';''"
    by (simp add: fix_import_line_def Let_def from_clause_def)
next
  show "fix_imports uw (str ''import { FullscreenLayoutProps } from '@zen/tui'; <FullscreenLayout>'')
     = str ''import { FullscreenLayoutProps } from '@zen/tui'; <FullscreenLayout>''"
    by (simp add: eval_defs)
next
  show "fix_imports uw (str ''import { LayoutProps } from '@zen/tui'; <FullscreenLayout>'')
     = str ''import { LayoutProps, FullscreenLayout} from '@zen/tui'; <FullscreenLayout>''"
    by (simp add: eval_defs)
qed

theorem substring_suppresses_repair_witness:
  "import_group1 [str ''import'', str '' '', str ''{'', str '' FullscreenLayoutProps '',
        str ''}'', str '' '', str ''from'', str '' '', [39], str ''@zen/tui'', [39], str '';'']
     = str ''import { '' @ str ''FullscreenLayout'' @ str ''Props }'' \<and>
   fix_import_line ascii_db
     (str ''import { FullscreenLayoutProps } from '@zen/tui'; <FullscreenLayout>'')
     [str ''import'', str '' '', str ''{'', str '' FullscreenLayoutProps '',
        str ''}'', str '' '', str ''from'', str '' '', [39], str ''@zen/tui'', [39], str '';'']
     = str ''import { FullscreenLayoutProps } from '@zen/tui';''"
proof -
  let ?segs = "[str ''import'', str '' '', str ''{'', str '' FullscreenLayoutProps '',
        str ''}'', str '' '', str ''from'', str '' '', [39], str ''@zen/tui'', [39], str '';'']"
  have h: "import_group1 ?segs = str ''import { '' @ str ''FullscreenLayout'' @ str ''Props }''"
    by (simp add: import_group1_def str_def)
  have r: "re_sub ascii_db comma_pattern comma_repl (import_group1 ?segs)
             = str ''import { FullscreenLayoutProps }''"
    by (simp add: import_group1_def comma_pattern_def comma_repl_def str_def is_space_def is_word_def)
  from substring_suppresses_repair[of ?segs "str ''import { ''" "str ''Props }''" ascii_db
      "str ''import { FullscreenLayoutProps } from '@zen/tui'; <FullscreenLayout>''",
      THEN conjunct1, rule_format, OF h] r
  have "fix_import_line ascii_db
     (str ''import { FullscreenLayoutProps } from '@zen/tui'; <FullscreenLayout>'') ?segs
     = str ''import { FullscreenLayoutProps } from '@zen/tui';''"
    by (simp add: str_def)
  with h show ?thesis by (intro conjI)
qed



end
